theory Spec2Isabelle
  imports Main "HOL-Library.Word"
begin

unbundle bit_operations_syntax

section \<open>The circular queue of circular\_buffer.h\<close>

text \<open>
  \<^verbatim>\<open>FastCircularQueue<T, SizeType>\<close> keeps three indices of type \<^verbatim>\<open>SizeType\<close> and a
  pointer to a block obtained from \<^verbatim>\<open>malloc\<close>. The index type is modelled at the
  default template argument, \<^verbatim>\<open>uint32_t\<close>, as \<open>32 word\<close>: addition, subtraction and
  shifts wrap around as the unsigned C++ operations do.

  The element type \<^verbatim>\<open>T\<close> is modelled by its size \<open>tsz = sizeof(T)\<close> in bytes, and an
  element by its object representation, a list of \<open>tsz\<close> bytes. The class moves
  elements with \<^verbatim>\<open>realloc\<close> and \<^verbatim>\<open>memcpy\<close>, which is defined for trivially copyable
  types only; for those a move is a copy and the destructor does nothing. A byte
  of a block that was never written is \<open>None\<close>.
\<close>

type_synonym size_type = "32 word"
type_synonym cell = "8 word option"
type_synonym elem = "cell list"
type_synonym block = "cell list"

subsection \<open>Errors\<close>

text \<open>
  \<open>AllocationFailure\<close> is \<^verbatim>\<open>std::bad_alloc\<close>; \<open>InvalidResize\<close> and \<open>EmptyQueue\<close> are the
  two \<^verbatim>\<open>std::runtime_error\<close>s of \<^verbatim>\<open>resize\<close> and of \<^verbatim>\<open>pop\<close>/\<^verbatim>\<open>pop_back\<close>;
  \<open>AssertFailed\<close> is the \<^verbatim>\<open>assert\<close> of the constructor. \<open>OutOfBounds\<close> is no C++
  exception: it marks an access outside an allocated block, which is undefined
  behaviour in C++. The model stops the operation at such an access and returns
  the fields as they are at that point.
\<close>

datatype error = AllocationFailure | InvalidResize | EmptyQueue | AssertFailed | OutOfBounds

subsection \<open>The allocator\<close>

text \<open>
  The heap is the list of the blocks handed out so far; the address of a block is
  its position in the list, so that a new block never has the address of an older
  one. A released block is \<open>None\<close>. \<open>avail\<close> is the number of bytes the allocator can
  still hand out: a request beyond it returns the null pointer (\<open>None\<close>).
\<close>

record heap =
  blocks :: "block option list"
  avail :: nat

definition block_at :: "heap \<Rightarrow> nat \<Rightarrow> block option" where
  "block_at h p = (if p < length (blocks h) then blocks h ! p else None)"

definition malloc :: "nat \<Rightarrow> heap \<Rightarrow> nat option \<times> heap" where
  "malloc n h =
     (if n \<le> avail h
      then (Some (length (blocks h)),
            h\<lparr>blocks := blocks h @ [Some (replicate n None)], avail := avail h - n\<rparr>)
      else (None, h))"

definition free_block :: "nat \<Rightarrow> heap \<Rightarrow> heap" where
  "free_block p h =
     (case block_at h p of
        None \<Rightarrow> h
      | Some b \<Rightarrow> h\<lparr>blocks := (blocks h)[p := None], avail := avail h + length b\<rparr>)"

text \<open>
  \<^verbatim>\<open>realloc(p, n)\<close> keeps the first bytes of the block and leaves the new ones
  unwritten; the block keeps its address. With \<open>n = 0\<close> it releases the block and
  returns the null pointer, as glibc does. On a pointer that is no live block it
  is undefined (\<open>Inl OutOfBounds\<close>).
\<close>

definition realloc :: "nat \<Rightarrow> nat \<Rightarrow> heap \<Rightarrow> (error + nat option) \<times> heap" where
  "realloc p n h =
     (case block_at h p of
        None \<Rightarrow> (Inl OutOfBounds, h)
      | Some b \<Rightarrow>
          if n = 0 then (Inr None, free_block p h)
          else if n \<le> length b + avail h
          then (Inr (Some p),
                h\<lparr>blocks := (blocks h)[p := Some (take n b @ replicate (n - length b) None)],
                  avail := length b + avail h - n\<rparr>)
          else (Inr None, h))"

text \<open>
  \<open>memcpy h dst doff src soff n\<close> copies \<open>n\<close> bytes from byte offset \<open>soff\<close> of block
  \<open>src\<close> to byte offset \<open>doff\<close> of block \<open>dst\<close>; \<open>None\<close> when a range leaves its block.
\<close>

definition memcpy :: "heap \<Rightarrow> nat \<Rightarrow> nat \<Rightarrow> nat \<Rightarrow> nat \<Rightarrow> nat \<Rightarrow> heap option" where
  "memcpy h dst doff src soff n =
     (case block_at h dst of
        None \<Rightarrow> None
      | Some d \<Rightarrow>
          (case block_at h src of
             None \<Rightarrow> None
           | Some s \<Rightarrow>
               if doff + n \<le> length d \<and> soff + n \<le> length s
               then Some (h\<lparr>blocks := (blocks h)[dst := Some (take doff d @ take n (drop soff s) @ drop (doff + n) d)]\<rparr>)
               else None))"

text \<open>Reading and writing the element \<^verbatim>\<open>p[i]\<close> of a block of elements of \<open>tsz\<close> bytes.\<close>

definition load_elem :: "nat \<Rightarrow> heap \<Rightarrow> nat \<Rightarrow> nat \<Rightarrow> elem option" where
  "load_elem tsz h p i =
     (case block_at h p of
        None \<Rightarrow> None
      | Some b \<Rightarrow> if i * tsz + tsz \<le> length b then Some (take tsz (drop (i * tsz) b)) else None)"

definition store_elem :: "nat \<Rightarrow> heap \<Rightarrow> nat \<Rightarrow> nat \<Rightarrow> elem \<Rightarrow> heap option" where
  "store_elem tsz h p i v =
     (case block_at h p of
        None \<Rightarrow> None
      | Some b \<Rightarrow>
          if i * tsz + tsz \<le> length b
          then Some (h\<lparr>blocks := (blocks h)[p := Some (take (i * tsz) b @ v @ drop (i * tsz + tsz) b)]\<rparr>)
          else None)"

subsection \<open>roundup\<close>

text \<open>
  At \<^verbatim>\<open>sizeof(T) = 4\<close> the shifts by 8 and by 16 are compiled in and the shift by 32
  is not.
\<close>

definition roundup :: "size_type \<Rightarrow> size_type" where
  "roundup x0 =
     (let x = x0 - 1;
          x = x OR drop_bit 1 x;
          x = x OR drop_bit 2 x;
          x = x OR drop_bit 4 x;
          x = x OR drop_bit 8 x;
          x = x OR drop_bit 16 x
      in x + 1)"

subsection \<open>The queue\<close>

text \<open>
  The fields \<^verbatim>\<open>mask_\<close>, \<^verbatim>\<open>start_\<close>, \<^verbatim>\<open>stop_\<close> and \<^verbatim>\<open>data_\<close>, under the names of their
  accessors (\<open>mask_q\<close> for \<^verbatim>\<open>mask()\<close>). \<open>data\<close> is the address of the block.
\<close>

record queue =
  mask_q :: size_type
  start :: size_type
  stop :: size_type
  data :: nat

text \<open>The constructor \<^verbatim>\<open>FastCircularQueue(SizeType size)\<close>.\<close>

definition construct :: "nat \<Rightarrow> heap \<Rightarrow> size_type \<Rightarrow> (error + queue) \<times> heap" where
  "construct tsz h size0 =
     (let m = roundup (size0 + 1) - 1 in
      case malloc (unat (m + 1) * tsz) h of
        (r, h1) \<Rightarrow>
          if m AND (m + 1) \<noteq> 0 then (Inl AssertFailed, h1)
          else (case r of
                  None \<Rightarrow> (Inl AllocationFailure, h1)
                | Some p \<Rightarrow> (Inr \<lparr>mask_q = m, start = 0, stop = 0, data = p\<rparr>, h1)))"

definition capacity :: "queue \<Rightarrow> size_type" where
  "capacity q = mask_q q"

definition size_q :: "queue \<Rightarrow> size_type" where
  "size_q q = (stop q - start q) AND mask_q q"

text \<open>
  \<^verbatim>\<open>resize\<close>. The three \<^verbatim>\<open>memcpy\<close> calls of the branch \<^verbatim>\<open>start_ == stop_\<close>,
  \<^verbatim>\<open>start_ != 0\<close> and the three of the branch \<^verbatim>\<open>stop_ < start_\<close> are written with
  the byte counts of the source: every count is a number of elements times
  \<^verbatim>\<open>sizeof(T)\<close> except the last of the second branch, \<^verbatim>\<open>memcpy(data_, tmp, sz)\<close>.
\<close>

definition resize_finish :: "heap \<Rightarrow> queue \<Rightarrow> (error + unit) \<times> heap \<times> queue" where
  "resize_finish h q = (Inr (), h, q\<lparr>mask_q := push_bit 1 (mask_q q + 1) - 1\<rparr>)"

definition resize_empty_offset :: "nat \<Rightarrow> heap \<Rightarrow> queue \<Rightarrow> (error + unit) \<times> heap \<times> queue" where
  "resize_empty_offset tsz h q0 =
     (let q = q0\<lparr>stop := mask_q q0 + 1\<rparr> in
      case malloc (unat (stop q) * tsz) h of
        (None, h1) \<Rightarrow> (Inl AllocationFailure, h1, q)
      | (Some tmp, h1) \<Rightarrow>
          (case memcpy h1 tmp 0 (data q) (unat (start q) * tsz) (unat (stop q - start q) * tsz) of
             None \<Rightarrow> (Inl OutOfBounds, h1, q)
           | Some h2 \<Rightarrow>
               (case memcpy h2 tmp (unat (stop q - start q) * tsz) (data q) 0 (unat (stop q) * tsz) of
                  None \<Rightarrow> (Inl OutOfBounds, h2, q)
                | Some h3 \<Rightarrow>
                    (case memcpy h3 (data q) 0 tmp 0 (unat (stop q) * tsz) of
                       None \<Rightarrow> (Inl OutOfBounds, h3, q)
                     | Some h4 \<Rightarrow> resize_finish (free_block tmp h4) (q\<lparr>start := 0\<rparr>)))))"

definition resize_wrapped :: "nat \<Rightarrow> heap \<Rightarrow> queue \<Rightarrow> (error + unit) \<times> heap \<times> queue" where
  "resize_wrapped tsz h q =
     (case malloc (unat (mask_q q + 1) * tsz) h of
        (None, h1) \<Rightarrow> (Inl AllocationFailure, h1, q)
      | (Some tmp, h1) \<Rightarrow>
          (case memcpy h1 tmp 0 (data q) (unat (start q) * tsz) (unat ((mask_q q + 1) - start q) * tsz) of
             None \<Rightarrow> (Inl OutOfBounds, h1, q)
           | Some h2 \<Rightarrow>
               (case memcpy h2 tmp (unat ((mask_q q + 1) - start q) * tsz) (data q) 0 (unat (stop q) * tsz) of
                  None \<Rightarrow> (Inl OutOfBounds, h2, q)
                | Some h3 \<Rightarrow>
                    (let sz = (stop q - start q) AND mask_q q in
                     case memcpy h3 (data q) 0 tmp 0 (unat sz) of
                       None \<Rightarrow> (Inl OutOfBounds, h3, q)
                     | Some h4 \<Rightarrow> resize_finish (free_block tmp h4) (q\<lparr>start := 0, stop := sz\<rparr>)))))"

definition resize :: "nat \<Rightarrow> heap \<Rightarrow> queue \<Rightarrow> size_type \<Rightarrow> (error + unit) \<times> heap \<times> queue" where
  "resize tsz h q new_size =
     (if new_size < mask_q q then (Inl InvalidResize, h, q)
      else
        (case realloc (data q) (unat (roundup new_size) * tsz) h of
           (Inl e, h1) \<Rightarrow> (Inl e, h1, q)
         | (Inr None, h1) \<Rightarrow> (Inl AllocationFailure, h1, q)
         | (Inr (Some p), h1) \<Rightarrow>
             (let q1 = q\<lparr>data := p\<rparr> in
              if start q1 = stop q1
              then (if start q1 \<noteq> 0 then resize_empty_offset tsz h1 q1 else resize_finish h1 q1)
              else if stop q1 < start q1 then resize_wrapped tsz h1 q1
              else resize_finish h1 q1)))"

text \<open>
  \<^verbatim>\<open>push_back\<close> (\<^verbatim>\<open>push\<close> and \<^verbatim>\<open>emplace_back\<close> forward to it). The new element is
  given by its bytes \<open>v\<close>. The reference it returns is the pair of the block and
  the index of the slot.
\<close>

definition push_back :: "nat \<Rightarrow> heap \<Rightarrow> queue \<Rightarrow> elem \<Rightarrow> (error + nat \<times> nat) \<times> heap \<times> queue" where
  "push_back tsz h q v =
     (case (if (stop q + 1) AND mask_q q = start q
            then resize tsz h q (push_bit 1 (mask_q q + 1))
            else (Inr (), h, q)) of
        (Inl e, h1, q1) \<Rightarrow> (Inl e, h1, q1)
      | (Inr u, h1, q1) \<Rightarrow>
          (let ind = stop q1;
               q2 = q1\<lparr>stop := (stop q1 + 1) AND mask_q q1\<rparr> in
           case store_elem tsz h1 (data q2) (unat ind) v of
             None \<Rightarrow> (Inl OutOfBounds, h1, q2)
           | Some h2 \<Rightarrow> (Inr (data q2, unat ind), h2, q2)))"

text \<open>
  \<^verbatim>\<open>pop\<close> and \<^verbatim>\<open>pop_back\<close>. Neither writes to the block: the element is moved out of
  its slot, which for a trivially copyable type leaves the bytes as they are.
\<close>

definition pop :: "nat \<Rightarrow> heap \<Rightarrow> queue \<Rightarrow> (error + elem) \<times> queue" where
  "pop tsz h q =
     (if stop q = start q then (Inl EmptyQueue, q)
      else
        (let q1 = q\<lparr>start := start q + 1\<rparr> in
         case load_elem tsz h (data q) (unat (start q)) of
           None \<Rightarrow> (Inl OutOfBounds, q1)
         | Some v \<Rightarrow> (Inr v, q1\<lparr>start := start q1 AND mask_q q1\<rparr>)))"

definition pop_back :: "nat \<Rightarrow> heap \<Rightarrow> queue \<Rightarrow> (error + elem) \<times> queue" where
  "pop_back tsz h q =
     (if stop q = start q then (Inl EmptyQueue, q)
      else
        (let q1 = q\<lparr>stop := stop q - 1\<rparr> in
         case load_elem tsz h (data q1) (unat (stop q1)) of
           None \<Rightarrow> (Inl OutOfBounds, q1)
         | Some v \<Rightarrow> (Inr v, q1\<lparr>start := start q1 AND mask_q q1\<rparr>)))"

definition pop_front :: "nat \<Rightarrow> heap \<Rightarrow> queue \<Rightarrow> (error + elem) \<times> queue" where
  "pop_front tsz h q = pop tsz h q"

text \<open>
  \<^verbatim>\<open>front\<close> and \<^verbatim>\<open>back\<close> return references: the block and the index of the slot.
  The index of \<^verbatim>\<open>data_[stop_ - 1]\<close> is the unsigned value of \<^verbatim>\<open>stop_ - 1\<close>.
  (\<open>back_q\<close> is \<^verbatim>\<open>back()\<close>.) \<open>deref\<close> reads through a reference.
\<close>

definition front :: "queue \<Rightarrow> nat \<times> nat" where
  "front q = (data q, unat (start q))"

definition back_q :: "queue \<Rightarrow> nat \<times> nat" where
  "back_q q = (data q, unat (stop q - 1))"

definition deref :: "nat \<Rightarrow> heap \<Rightarrow> nat \<times> nat \<Rightarrow> elem option" where
  "deref tsz h r = load_elem tsz h (fst r) (snd r)"

text \<open>\<^verbatim>\<open>push_pop\<close>: \<^verbatim>\<open>pop()\<close>, then \<^verbatim>\<open>push\<close>; an exception of either leaves it at once.\<close>

definition push_pop :: "nat \<Rightarrow> heap \<Rightarrow> queue \<Rightarrow> elem \<Rightarrow> (error + elem) \<times> heap \<times> queue" where
  "push_pop tsz h q v =
     (case pop tsz h q of
        (Inl e, q1) \<Rightarrow> (Inl e, h, q1)
      | (Inr ret, q1) \<Rightarrow>
          (case push_back tsz h q1 v of
             (Inl e, h2, q2) \<Rightarrow> (Inl e, h2, q2)
           | (Inr r, h2, q2) \<Rightarrow> (Inr ret, h2, q2)))"

subsection \<open>Traversals\<close>

text \<open>
  The loops of \<^verbatim>\<open>to_vector\<close> and \<^verbatim>\<open>for_each\<close> run until the index equals \<^verbatim>\<open>stop_\<close>,
  which need not happen: they are partial functions, and \<open>None\<close> is a loop that
  does not end. The visitor of \<^verbatim>\<open>for_each\<close> is a function from its own state and
  the element to its next state; the result is the visitor's last state. The
  storage of the \<^verbatim>\<open>std::vector\<close> is not part of the model: the vector is a list.
\<close>

partial_function (option) to_vector_loop ::
  "nat \<Rightarrow> heap \<Rightarrow> queue \<Rightarrow> size_type \<Rightarrow> elem list \<Rightarrow> (error + elem list) option" where
  "to_vector_loop tsz h q i ret =
     (if i \<noteq> stop q
      then (case load_elem tsz h (data q) (unat i) of
              None \<Rightarrow> Some (Inl OutOfBounds)
            | Some v \<Rightarrow> to_vector_loop tsz h q ((i + 1) AND mask_q q) (ret @ [v]))
      else Some (Inr ret))"

definition to_vector :: "nat \<Rightarrow> heap \<Rightarrow> queue \<Rightarrow> (error + elem list) option" where
  "to_vector tsz h q = to_vector_loop tsz h q (start q) []"

partial_function (option) for_each_loop ::
  "nat \<Rightarrow> ('s \<Rightarrow> elem \<Rightarrow> 's) \<Rightarrow> heap \<Rightarrow> queue \<Rightarrow> size_type \<Rightarrow> 's \<Rightarrow> (error + 's) option" where
  "for_each_loop tsz func h q i s =
     (if i \<noteq> stop q
      then (case load_elem tsz h (data q) (unat i) of
              None \<Rightarrow> Some (Inl OutOfBounds)
            | Some v \<Rightarrow> for_each_loop tsz func h q ((i + 1) AND mask_q q) (func s v))
      else Some (Inr s))"

definition for_each :: "nat \<Rightarrow> ('s \<Rightarrow> elem \<Rightarrow> 's) \<Rightarrow> heap \<Rightarrow> queue \<Rightarrow> 's \<Rightarrow> (error + 's) option" where
  "for_each tsz func h q s = for_each_loop tsz func h q (start q) s"

subsection \<open>The copy constructor\<close>

text \<open>
  \<^verbatim>\<open>FastCircularQueue(const FastCircularQueue &other)\<close> copies the three indices,
  allocates \<^verbatim>\<open>mask_ + 1\<close> elements and runs
  \<^verbatim>\<open>for(auto i(other.start_); i != other.stop_; data_[i] = other.data_[i], ++i);\<close>
  whose index is not masked.
\<close>

partial_function (option) copy_loop ::
  "nat \<Rightarrow> heap \<Rightarrow> nat \<Rightarrow> queue \<Rightarrow> size_type \<Rightarrow> ((error + unit) \<times> heap) option" where
  "copy_loop tsz h dst other i =
     (if i \<noteq> stop other
      then (case load_elem tsz h (data other) (unat i) of
              None \<Rightarrow> Some (Inl OutOfBounds, h)
            | Some v \<Rightarrow>
                (case store_elem tsz h dst (unat i) v of
                   None \<Rightarrow> Some (Inl OutOfBounds, h)
                 | Some h1 \<Rightarrow> copy_loop tsz h1 dst other (i + 1)))
      else Some (Inr (), h))"

definition copy_construct :: "nat \<Rightarrow> heap \<Rightarrow> queue \<Rightarrow> ((error + queue) \<times> heap) option" where
  "copy_construct tsz h other =
     (case malloc (tsz * unat (mask_q other + 1)) h of
        (None, h1) \<Rightarrow> Some (Inl AllocationFailure, h1)
      | (Some tmp, h1) \<Rightarrow>
          (case copy_loop tsz h1 tmp other (start other) of
             None \<Rightarrow> None
           | Some (Inl e, h2) \<Rightarrow> Some (Inl e, h2)
           | Some (Inr u, h2) \<Rightarrow>
               Some (Inr \<lparr>mask_q = mask_q other, start = start other, stop = stop other, data = tmp\<rparr>, h2)))"

subsection \<open>What a traversal should visit\<close>

text \<open>
  \<open>slot tsz b i\<close> is the element \<open>i\<close> of the block \<open>b\<close>. \<open>live_indices q\<close> lists the
  slots of the occupied range from the front to the back: the slot
  \<open>(start + j) & mask\<close> for every \<open>j\<close> below \<^verbatim>\<open>size()\<close>.
\<close>

definition slot :: "nat \<Rightarrow> block \<Rightarrow> nat \<Rightarrow> elem" where
  "slot tsz b i = take tsz (drop (i * tsz) b)"

definition live_indices :: "queue \<Rightarrow> nat list" where
  "live_indices q = map (\<lambda>j. unat ((start q + of_nat j) AND mask_q q)) [0..<unat (size_q q)]"

subsection \<open>Clients\<close>

text \<open>
  A run of \<^verbatim>\<open>push_back\<close> calls, a run of \<^verbatim>\<open>pop_front\<close> calls, and the first followed
  by as many of the second. An exception ends the run.
\<close>

fun push_all :: "nat \<Rightarrow> heap \<Rightarrow> queue \<Rightarrow> elem list \<Rightarrow> (error + unit) \<times> heap \<times> queue" where
  "push_all tsz h q [] = (Inr (), h, q)"
| "push_all tsz h q (v # vs) =
     (case push_back tsz h q v of
        (Inl e, h1, q1) \<Rightarrow> (Inl e, h1, q1)
      | (Inr r, h1, q1) \<Rightarrow> push_all tsz h1 q1 vs)"

fun pop_n :: "nat \<Rightarrow> heap \<Rightarrow> queue \<Rightarrow> nat \<Rightarrow> (error + elem list) \<times> queue" where
  "pop_n tsz h q 0 = (Inr [], q)"
| "pop_n tsz h q (Suc n) =
     (case pop_front tsz h q of
        (Inl e, q1) \<Rightarrow> (Inl e, q1)
      | (Inr v, q1) \<Rightarrow>
          (case pop_n tsz h q1 n of
             (Inl e, q2) \<Rightarrow> (Inl e, q2)
           | (Inr vs, q2) \<Rightarrow> (Inr (v # vs), q2)))"

definition push_then_pop :: "nat \<Rightarrow> heap \<Rightarrow> queue \<Rightarrow> elem list \<Rightarrow> error + elem list" where
  "push_then_pop tsz h q vs =
     (case push_all tsz h q vs of
        (Inl e, h1, q1) \<Rightarrow> Inl e
      | (Inr u, h1, q1) \<Rightarrow> fst (pop_n tsz h1 q1 (length vs)))"

section \<open>Masks\<close>

text \<open>
  The constructor asserts \<^verbatim>\<open>(mask_ & (mask_ + 1)) == 0\<close>. A word with this property
  is \<open>2 ^ k - 1\<close> for some \<open>k\<close>, and \<open>AND\<close> with it is reduction modulo \<open>2 ^ k\<close>.
\<close>

lemma nat_and_Suc_eq_0:
  fixes n :: nat
  assumes "n AND (n + 1) = 0"
  shows "\<exists>k. n = 2 ^ k - 1"
  using assms
proof (induction n rule: less_induct)
  case (less n)
  show ?case
  proof (cases "n = 0")
    case True
    then have "n = 2 ^ 0 - 1" by simp
    then show ?thesis by blast
  next
    case False
    show ?thesis
    proof (cases "even n")
      case True
      then have "(n + 1) div 2 = n div 2" by auto
      with True have "n AND (n + 1) = 2 * (n div 2)"
        by (subst and_nat_rec) simp
      with True False less.prems show ?thesis by auto
    next
      case odd: False
      then have d: "(n + 1) div 2 = n div 2 + 1" by (auto elim: oddE)
      from odd have "n AND (n + 1) = 2 * (n div 2 AND (n div 2 + 1))"
        by (subst and_nat_rec) (simp add: d)
      with less.prems have "n div 2 AND (n div 2 + 1) = 0" by simp
      moreover from False have "n div 2 < n" by simp
      ultimately obtain k where k: "n div 2 = 2 ^ k - 1"
        using less.IH by blast
      from odd have "n = 2 * (n div 2) + 1" by (auto elim: oddE)
      moreover obtain p where "(2::nat) ^ k = Suc p"
        by (metis not0_implies_Suc power_not_zero zero_neq_numeral)
      ultimately have "n = 2 ^ Suc k - 1" using k by simp
      then show ?thesis by blast
    qed
  qed
qed

lemma word_and_succ_eq_0:
  fixes m :: "'a::len word"
  assumes "m AND (m + 1) = 0"
  shows "\<exists>k. m = mask k"
proof (cases "m + 1 = 0")
  case True
  then have "m = - 1" by (simp add: eq_neg_iff_add_eq_0)
  then have "m = mask LENGTH('a)" by simp
  then show ?thesis by blast
next
  case False
  then have "unat (1 + m) = Suc (unat m)"
    by (intro unatSuc) (simp add: add.commute)
  then have u: "unat (m + 1) = unat m + 1" by (simp add: add.commute)
  from assms have "unat (m AND (m + 1)) = 0" by simp
  then have "unat m AND (unat m + 1) = 0"
    by (simp add: unsigned_and_eq u)
  then obtain k where k: "unat m = 2 ^ k - 1"
    using nat_and_Suc_eq_0 by blast
  have "m = of_nat (unat m)" by simp
  also have "\<dots> = of_nat (2 ^ k - 1)" by (simp only: k)
  also have "\<dots> = mask k" by (simp add: mask_eq_exp_minus_1 of_nat_diff)
  finally show ?thesis by blast
qed

lemma le_mask_and_mask:
  fixes x :: "'a::len word"
  assumes "x \<le> mask k"
  shows "x AND mask k = x"
proof (cases "k < LENGTH('a)")
  case True
  from assms have "x \<le> 2 ^ k - 1" by (simp add: mask_eq_exp_minus_1)
  moreover have "(2 :: 'a word) ^ k \<noteq> 0" using True by (simp add: exp_eq_zero_iff)
  ultimately have "x < 2 ^ k" by (simp add: less_eq_dec_iff)
  then show ?thesis by (rule less_mask_eq)
next
  case False
  then have "(2 :: 'a word) ^ k = 0" by (simp add: exp_eq_zero_iff)
  then have "(mask k :: 'a word) = - 1" by (simp add: mask_eq_exp_minus_1)
  then show ?thesis by simp
qed

lemma word_pred_le: "(t::'a::len word) \<noteq> 0 \<Longrightarrow> t - 1 \<le> t"
  by (meson less_eq_dec_triv_imp nle_le)

lemma mask_sub_zero_eq:
  fixes i s :: "'a::len word"
  assumes "i \<le> mask k" "s \<le> mask k" "(s - i) AND mask k = 0"
  shows "i = s"
proof -
  have "s = s AND mask k" using assms(2) by (simp add: le_mask_and_mask)
  also have "\<dots> = ((s - i) + i) AND mask k" by simp
  also have "\<dots> = (((s - i) AND mask k) + i) AND mask k" by (simp only: mask_eqs)
  also have "\<dots> = i AND mask k" using assms(3) by simp
  also have "\<dots> = i" using assms(1) by (simp add: le_mask_and_mask)
  finally show ?thesis by simp
qed

lemma mask_step:
  fixes i s :: "'a::len word"
  assumes "(s - i) AND mask k \<noteq> 0"
  shows "(s - ((i + 1) AND mask k)) AND mask k = ((s - i) AND mask k) - 1"
proof -
  let ?t = "(s - i) AND mask k"
  have "?t - 1 \<le> ?t" using assms by (rule word_pred_le)
  also have "?t \<le> mask k" by (rule word_and_le1)
  finally have le: "?t - 1 \<le> mask k" .
  have "(s - ((i + 1) AND mask k)) AND mask k = (s - (i + 1)) AND mask k"
    by (simp only: mask_eqs)
  also have "s - (i + 1) = (s - i) - 1" by simp
  also have "((s - i) - 1) AND mask k = (?t - 1) AND mask k"
    by (simp only: mask_eqs)
  also have "\<dots> = ?t - 1" using le by (rule le_mask_and_mask)
  finally show ?thesis .
qed

lemma mask_shift:
  fixes i :: "'a::len word"
  shows "(((i + 1) AND mask k) + of_nat j) AND mask k = (i + of_nat (Suc j)) AND mask k"
proof -
  have "(((i + 1) AND mask k) + of_nat j) AND mask k = ((i + 1) + of_nat j) AND mask k"
    by (rule mask_eqs)
  also have "(i + 1) + of_nat j = i + of_nat (Suc j)" by simp
  finally show ?thesis .
qed


lemma and_succ_less_eq:
  fixes x m :: size_type
  assumes "m AND (m + 1) = 0" "x \<le> m"
  shows "x AND m = x"
proof -
  from assms(1) obtain k where "m = mask k" using word_and_succ_eq_0 by blast
  with assms(2) show ?thesis by (simp add: le_mask_and_mask)
qed

section \<open>The assertion on the mask holds in every state the operations build\<close>

text \<open>
  A queue that the constructor returns passes the assertion, and \<^verbatim>\<open>resize\<close>,
  \<^verbatim>\<open>push_back\<close>, \<^verbatim>\<open>pop\<close> and \<^verbatim>\<open>pop_back\<close> keep it, whatever their outcome.
\<close>

lemma mask_and_succ_eq_0:
  fixes m :: "'a::len word"
  assumes "m = mask k"
  shows "m AND (m + 1) = 0"
proof -
  have "(2 :: 'a word) ^ k AND mask k = take_bit k (2 ^ k)" by (simp only: take_bit_eq_mask)
  also have "\<dots> = 0" by (simp add: take_bit_eq_0_iff)
  finally show ?thesis using assms by (simp add: inc_mask_eq_exp and.commute)
qed

lemma double_mask:
  fixes m :: "'a::len word"
  assumes "m AND (m + 1) = 0"
  shows "(push_bit 1 (m + 1) - 1) AND (push_bit 1 (m + 1) - 1 + 1) = 0"
proof -
  from assms obtain k where k: "m = mask k" using word_and_succ_eq_0 by blast
  have "push_bit 1 (m + 1) - 1 = mask (Suc k)"
    by (simp add: k inc_mask_eq_exp push_bit_eq_mult mask_eq_exp_minus_1)
  then show ?thesis by (simp only: mask_and_succ_eq_0)
qed

lemma construct_mask:
  "construct tsz h n = (Inr q, h') \<Longrightarrow> mask_q q AND (mask_q q + 1) = 0"
  by (auto simp: construct_def Let_def split: prod.splits if_splits option.splits)

lemma resize_mask:
  assumes "mask_q q AND (mask_q q + 1) = 0" "resize tsz h q n = (r, h', q')"
  shows "mask_q q' AND (mask_q q' + 1) = 0"
proof -
  from assms(2) have "mask_q q' = mask_q q \<or> mask_q q' = push_bit 1 (mask_q q + 1) - 1"
    by (auto simp: resize_def resize_wrapped_def resize_empty_offset_def resize_finish_def Let_def
      split: if_splits prod.splits sum.splits option.splits)
  with assms(1) show ?thesis by (auto simp only: double_mask)
qed

lemma push_back_mask:
  assumes "mask_q q AND (mask_q q + 1) = 0" "push_back tsz h q v = (r, h', q')"
  shows "mask_q q' AND (mask_q q' + 1) = 0"
proof (cases "(stop q + 1) AND mask_q q = start q")
  case True
  obtain r1 h1 q1 where rs: "resize tsz h q (push_bit 1 (mask_q q + 1)) = (r1, h1, q1)"
    by (metis prod_cases3)
  with assms(1) have "mask_q q1 AND (mask_q q1 + 1) = 0" by (rule resize_mask)
  moreover from assms(2) True rs have "mask_q q' = mask_q q1"
    by (auto simp: push_back_def Let_def split: sum.splits option.splits)
  ultimately show ?thesis by simp
next
  case False
  with assms(2) have "mask_q q' = mask_q q"
    by (auto simp: push_back_def Let_def split: sum.splits option.splits)
  with assms(1) show ?thesis by simp
qed

lemma pop_mask: "pop tsz h q = (r, q') \<Longrightarrow> mask_q q' = mask_q q"
  by (auto simp: pop_def Let_def split: if_splits option.splits)

lemma pop_back_mask: "pop_back tsz h q = (r, q') \<Longrightarrow> mask_q q' = mask_q q"
  by (auto simp: pop_back_def Let_def split: if_splits option.splits)

section \<open>The traversal loops\<close>

lemma load_elem_in_block:
  assumes "block_at h p = Some b" "i \<le> m" "(m + 1) * tsz \<le> length b"
  shows "load_elem tsz h p i = Some (slot tsz b i)"
proof -
  have "i * tsz \<le> m * tsz" using assms(2) by (rule mult_le_mono1)
  moreover have "(m + 1) * tsz = m * tsz + tsz" by simp
  ultimately have "i * tsz + tsz \<le> length b" using assms(3) by linarith
  with assms(1) show ?thesis by (simp add: load_elem_def slot_def)
qed

lemma upt_0_Suc_map: "map f [0..<Suc n] = f 0 # map (\<lambda>j. f (Suc j)) [0..<n]"
proof -
  have "[0..<Suc n] = 0 # map Suc [0..<n]"
    by (simp only: map_Suc_upt upt_conv_Cons [of 0 "Suc n"] zero_less_Suc)
  then show ?thesis by (simp only: list.map map_map o_def)
qed

lemma to_vector_loop_run:
  fixes q :: queue
  assumes m: "mask_q q = mask k"
    and stop: "stop q \<le> mask k"
    and blk: "block_at h (data q) = Some b" "(unat (mask_q q) + 1) * tsz \<le> length b"
  shows "i \<le> mask k \<Longrightarrow> unat ((stop q - i) AND mask k) = n \<Longrightarrow>
    to_vector_loop tsz h q i ret
    = Some (Inr (ret @ map (\<lambda>j. slot tsz b (unat ((i + of_nat j) AND mask k))) [0..<n]))"
proof (induction n arbitrary: i ret)
  case 0
  then have "(stop q - i) AND mask k = 0" by (simp add: unat_eq_0)
  with 0(1) stop have "i = stop q" by (rule mask_sub_zero_eq)
  then show ?case by (subst to_vector_loop.simps) simp
next
  case (Suc n)
  let ?t = "(stop q - i) AND mask k"
  let ?i' = "(i + 1) AND mask k"
  from Suc.prems have t0: "?t \<noteq> 0" by auto
  then have ne: "i \<noteq> stop q" by auto
  have "unat i \<le> unat (mask_q q)" using Suc.prems(1) m by (simp add: word_le_nat_alt)
  with blk(1) have ld: "load_elem tsz h (data q) (unat i) = Some (slot tsz b (unat i))"
    using blk(2) by (rule load_elem_in_block)
  have i': "?i' \<le> mask k" by (rule word_and_le1)
  have "(stop q - ?i') AND mask k = ?t - 1" using t0 by (rule mask_step)
  moreover have "unat (?t - 1) = unat ?t - 1" using t0 by (rule unat_minus_one)
  ultimately have "unat ((stop q - ?i') AND mask k) = unat ?t - 1" by simp
  with Suc.prems have n': "unat ((stop q - ?i') AND mask k) = n" by simp
  have ih: "to_vector_loop tsz h q ?i' (ret @ [slot tsz b (unat i)])
    = Some (Inr ((ret @ [slot tsz b (unat i)]) @ map (\<lambda>j. slot tsz b (unat ((?i' + of_nat j) AND mask k))) [0..<n]))"
    using i' n' by (rule Suc.IH)
  have i0: "(i + of_nat 0) AND mask k = i" using Suc.prems(1) by (simp add: le_mask_and_mask)
  have mp: "map (\<lambda>j. slot tsz b (unat ((i + of_nat j) AND mask k))) [0..<Suc n]
        = slot tsz b (unat i) # map (\<lambda>j. slot tsz b (unat ((?i' + of_nat j) AND mask k))) [0..<n]"
    by (simp only: upt_0_Suc_map mask_shift i0)
  have "to_vector_loop tsz h q i ret = to_vector_loop tsz h q ?i' (ret @ [slot tsz b (unat i)])"
    by (subst to_vector_loop.simps) (simp only: ne ld m if_True option.case not_False_eq_True)
  also note ih
  finally show ?case by (simp only: mp append_assoc append_Cons append_Nil)
qed


lemma for_each_loop_run:
  fixes q :: queue
  assumes m: "mask_q q = mask k"
    and stop: "stop q \<le> mask k"
    and blk: "block_at h (data q) = Some b" "(unat (mask_q q) + 1) * tsz \<le> length b"
  shows "i \<le> mask k \<Longrightarrow> unat ((stop q - i) AND mask k) = n \<Longrightarrow>
    for_each_loop tsz func h q i s
    = Some (Inr (foldl func s (map (\<lambda>j. slot tsz b (unat ((i + of_nat j) AND mask k))) [0..<n])))"
proof (induction n arbitrary: i s)
  case 0
  then have "(stop q - i) AND mask k = 0" by (simp add: unat_eq_0)
  with 0(1) stop have "i = stop q" by (rule mask_sub_zero_eq)
  then show ?case by (subst for_each_loop.simps) simp
next
  case (Suc n)
  let ?t = "(stop q - i) AND mask k"
  let ?i' = "(i + 1) AND mask k"
  from Suc.prems have t0: "?t \<noteq> 0" by auto
  then have ne: "i \<noteq> stop q" by auto
  have "unat i \<le> unat (mask_q q)" using Suc.prems(1) m by (simp add: word_le_nat_alt)
  with blk(1) have ld: "load_elem tsz h (data q) (unat i) = Some (slot tsz b (unat i))"
    using blk(2) by (rule load_elem_in_block)
  have i': "?i' \<le> mask k" by (rule word_and_le1)
  have "(stop q - ?i') AND mask k = ?t - 1" using t0 by (rule mask_step)
  moreover have "unat (?t - 1) = unat ?t - 1" using t0 by (rule unat_minus_one)
  ultimately have "unat ((stop q - ?i') AND mask k) = unat ?t - 1" by simp
  with Suc.prems have n': "unat ((stop q - ?i') AND mask k) = n" by simp
  have ih: "for_each_loop tsz func h q ?i' (func s (slot tsz b (unat i)))
    = Some (Inr (foldl func (func s (slot tsz b (unat i)))
         (map (\<lambda>j. slot tsz b (unat ((?i' + of_nat j) AND mask k))) [0..<n])))"
    using i' n' by (rule Suc.IH)
  have i0: "(i + of_nat 0) AND mask k = i" using Suc.prems(1) by (simp add: le_mask_and_mask)
  have mp: "map (\<lambda>j. slot tsz b (unat ((i + of_nat j) AND mask k))) [0..<Suc n]
        = slot tsz b (unat i) # map (\<lambda>j. slot tsz b (unat ((?i' + of_nat j) AND mask k))) [0..<n]"
    by (simp only: upt_0_Suc_map mask_shift i0)
  have "for_each_loop tsz func h q i s = for_each_loop tsz func h q ?i' (func s (slot tsz b (unat i)))"
    by (subst for_each_loop.simps) (simp only: ne ld m if_True option.case not_False_eq_True)
  also note ih
  finally show ?case by (simp only: mp foldl_Cons)
qed

lemma upt_0_3: "[0..<3] = [0, 1, 2]"
  by (simp add: numeral_3_eq_3)

section \<open>The copy loop on a range that does not wrap\<close>

lemma splice_read:
  assumes "a \<le> o'" "o' + t \<le> e" "e \<le> length b"
  shows "take t (drop o' (replicate a x @ take (e - a) (drop a b) @ c)) = take t (drop o' b)"
  using assms by (simp add: drop_take)

lemma splice_step:
  assumes "a + t \<le> length d" "a + t \<le> length b" "a + t \<le> e"
  shows "take (a + t) (take a d @ take t (drop a b) @ drop (a + t) d) @ take m (drop (a + t) b)
            @ drop e (take a d @ take t (drop a b) @ drop (a + t) d)
         = take a d @ take (t + m) (drop a b) @ drop e d"
proof -
  have "take (t + m) (drop a b) = take t (drop a b) @ take m (drop t (drop a b))"
    by (rule take_add)
  also have "drop t (drop a b) = drop (a + t) b" by (simp add: add.commute)
  finally show ?thesis using assms by simp
qed

lemma unat_add_of_nat:
  fixes s e :: size_type
  assumes "j \<le> unat e - unat s"
  shows "unat (s + of_nat j) = unat s + j"
proof -
  have "unat e < 4294967296" "unat s < 4294967296"
    using unsigned_less [of e] unsigned_less [of s] by simp_all
  with assms have lt: "unat s + j < 4294967296" by linarith
  then have j: "j mod 4294967296 = j" by simp
  from lt have sj: "(unat s + j) mod 4294967296 = unat s + j" by simp
  show ?thesis by (simp add: unat_word_ariths unat_of_nat j sj)
qed

lemma live_indices_unwrapped:
  fixes q :: queue
  assumes pow2: "mask_q q AND (mask_q q + 1) = 0"
    and le: "start q \<le> stop q" "stop q \<le> mask_q q"
  shows "live_indices q = [unat (start q)..<unat (stop q)]"
proof -
  have "stop q - start q \<le> stop q" using le(1) by (simp add: word_sub_le)
  with le(2) have "stop q - start q \<le> mask_q q" by simp
  with pow2 have "(stop q - start q) AND mask_q q = stop q - start q" by (rule and_succ_less_eq)
  then have sz: "unat (size_q q) = unat (stop q) - unat (start q)"
    using le(1) by (simp add: size_q_def unat_sub)
  have ix: "unat ((start q + of_nat j) AND mask_q q) = unat (start q) + j"
    if "j < unat (stop q) - unat (start q)" for j
  proof -
    from that have "j \<le> unat (stop q) - unat (start q)" by simp
    then have u: "unat (start q + of_nat j) = unat (start q) + j" by (rule unat_add_of_nat)
    with that have "unat (start q + of_nat j) \<le> unat (stop q)" by simp
    then have "start q + of_nat j \<le> stop q" by (simp add: word_le_nat_alt)
    with le(2) have "start q + of_nat j \<le> mask_q q" by simp
    with pow2 have "(start q + of_nat j) AND mask_q q = start q + of_nat j" by (rule and_succ_less_eq)
    with u show ?thesis by simp
  qed
  have "live_indices q = map (\<lambda>j. unat (start q) + j) [0..<unat (stop q) - unat (start q)]"
    unfolding live_indices_def sz by (rule map_cong) (simp_all add: ix)
  also have "\<dots> = map (\<lambda>j. j + unat (start q)) [0..<unat (stop q) - unat (start q)]"
    by (simp add: add.commute)
  also have "\<dots> = [unat (start q)..<unat (stop q)]"
    using le(1) by (simp only: map_add_upt) (simp add: word_le_nat_alt)
  finally show ?thesis .
qed


lemma block_at_SomeD:
  "block_at h p = Some b \<Longrightarrow> p < length (blocks h) \<and> blocks h ! p = Some b"
  by (simp add: block_at_def split: if_splits)

lemma block_at_update_same:
  "p < length (blocks h) \<Longrightarrow> block_at (h\<lparr>blocks := (blocks h)[p := x]\<rparr>) p = x"
  by (simp add: block_at_def)

lemma block_at_update_other:
  "p \<noteq> p' \<Longrightarrow> block_at (h\<lparr>blocks := (blocks h)[p := x]\<rparr>) p' = block_at h p'"
  by (simp add: block_at_def)

lemma copy_loop_run:
  fixes other :: queue
  assumes neq: "dst \<noteq> data other"
  shows "block_at h (data other) = Some b \<Longrightarrow> unat (stop other) * tsz \<le> length b \<Longrightarrow>
    block_at h dst = Some d \<Longrightarrow> unat (stop other) * tsz \<le> length d \<Longrightarrow>
    i \<le> stop other \<Longrightarrow> unat (stop other) - unat i = n \<Longrightarrow>
    copy_loop tsz h dst other i
    = Some (Inr (), h\<lparr>blocks := (blocks h)[dst := Some (take (unat i * tsz) d
          @ take (n * tsz) (drop (unat i * tsz) b) @ drop (unat (stop other) * tsz) d)]\<rparr>)"
proof (induction n arbitrary: i h d)
  case 0
  then have "unat (stop other) \<le> unat i" by simp
  moreover from 0 have "unat i \<le> unat (stop other)" by (simp add: word_le_nat_alt)
  ultimately have "unat i = unat (stop other)" by simp
  then have i: "i = stop other" by (simp add: word_unat_eq_iff)
  from 0 have "blocks h ! dst = Some d" using block_at_SomeD [of h dst d] by simp
  then have "(blocks h)[dst := Some d] = blocks h" by (metis list_update_id)
  then have "h\<lparr>blocks := (blocks h)[dst := Some (take (unat i * tsz) d
          @ take (0 * tsz) (drop (unat i * tsz) b) @ drop (unat (stop other) * tsz) d)]\<rparr> = h"
    using i by simp
  with i show ?case by (subst copy_loop.simps) simp
next
  case (Suc n)
  let ?a = "unat i * tsz"
  let ?e = "unat (stop other) * tsz"
  from Suc.prems have lt: "unat i < unat (stop other)" by simp
  then have ne: "i \<noteq> stop other" by auto
  have "(1::nat) \<le> unat (stop other) - unat i" using lt by simp
  then have "unat (i + of_nat 1) = unat i + 1" by (rule unat_add_of_nat)
  then have u1: "unat (i + 1) = unat i + 1" by simp
  with lt have i1: "i + 1 \<le> stop other" by (simp add: word_le_nat_alt)
  from u1 Suc.prems have n1: "unat (stop other) - unat (i + 1) = n" by simp
  have "(unat i + 1) * tsz \<le> ?e" using lt by (intro mult_le_mono1) simp
  then have ae: "?a + tsz \<le> ?e" by simp
  with Suc.prems have ab: "?a + tsz \<le> length b" and ad: "?a + tsz \<le> length d" by simp_all
  let ?v = "take tsz (drop ?a b)"
  let ?d1 = "take ?a d @ ?v @ drop (?a + tsz) d"
  let ?h1 = "h\<lparr>blocks := (blocks h)[dst := Some ?d1]\<rparr>"
  have ld: "load_elem tsz h (data other) (unat i) = Some ?v"
    using Suc.prems(1) ab by (simp add: load_elem_def)
  have st: "store_elem tsz h dst (unat i) ?v = Some ?h1"
    using Suc.prems(3) ad by (simp add: store_elem_def)
  have dl: "dst < length (blocks h)" using Suc.prems(3) block_at_SomeD by blast
  have b1: "block_at ?h1 (data other) = Some b"
    using neq Suc.prems(1) by (simp add: block_at_update_other)
  have d1: "block_at ?h1 dst = Some ?d1" using dl by (rule block_at_update_same)
  have l1: "unat (stop other) * tsz \<le> length ?d1" using ab ad Suc.prems(4) by simp
  have ih: "copy_loop tsz ?h1 dst other (i + 1)
    = Some (Inr (), ?h1\<lparr>blocks := (blocks ?h1)[dst := Some (take (unat (i + 1) * tsz) ?d1
          @ take (n * tsz) (drop (unat (i + 1) * tsz) b) @ drop ?e ?d1)]\<rparr>)"
    using b1 Suc.prems(2) d1 l1 i1 n1 by (rule Suc.IH)
  have sp: "take (?a + tsz) ?d1 @ take (n * tsz) (drop (?a + tsz) b) @ drop ?e ?d1
    = take ?a d @ take (tsz + n * tsz) (drop ?a b) @ drop ?e d"
    using ad ab ae by (rule splice_step)
  have ua: "unat (i + 1) * tsz = ?a + tsz" by (simp add: u1)
  have sn: "Suc n * tsz = tsz + n * tsz" by simp
  have ov: "?h1\<lparr>blocks := (blocks ?h1)[dst := y]\<rparr> = h\<lparr>blocks := (blocks h)[dst := y]\<rparr>" for y
    by simp
  have "copy_loop tsz h dst other i = copy_loop tsz ?h1 dst other (i + 1)"
    by (subst copy_loop.simps) (simp only: ne ld st if_True option.case not_False_eq_True)
  also note ih
  also have "?h1\<lparr>blocks := (blocks ?h1)[dst := Some (take (unat (i + 1) * tsz) ?d1
          @ take (n * tsz) (drop (unat (i + 1) * tsz) b) @ drop ?e ?d1)]\<rparr>
     = h\<lparr>blocks := (blocks h)[dst := Some (take (?a + tsz) ?d1
          @ take (n * tsz) (drop (?a + tsz) b) @ drop ?e ?d1)]\<rparr>"
    by (simp only: ua ov)
  also have "\<dots> = h\<lparr>blocks := (blocks h)[dst := Some (take ?a d
          @ take (Suc n * tsz) (drop ?a b) @ drop ?e d)]\<rparr>"
    by (simp only: sp sn)
  finally show ?case .
qed


lemma to_vector_visits:
  assumes "mask_q q AND (mask_q q + 1) = 0"
    and "start q \<le> mask_q q" and "stop q \<le> mask_q q"
    and "block_at h (data q) = Some b" and "(unat (mask_q q) + 1) * tsz \<le> length b"
  shows "to_vector tsz h q = Some (Inr (map (slot tsz b) (live_indices q)))"
proof -
  from assms(1) obtain k where k: "mask_q q = mask k" using word_and_succ_eq_0 by blast
  have st: "start q \<le> mask k" "stop q \<le> mask k" using assms(2,3) k by simp_all
  have n: "unat ((stop q - start q) AND mask k) = unat (size_q q)" by (simp add: size_q_def k)
  have l: "map (\<lambda>j. slot tsz b (unat ((start q + of_nat j) AND mask k))) [0..<unat (size_q q)]
    = map (slot tsz b) (live_indices q)"
    by (simp add: live_indices_def k o_def)
  show ?thesis
    unfolding to_vector_def
    using to_vector_loop_run [OF k st(2) assms(4,5) st(1) n, of "[]"] by (simp only: l append_Nil)
qed

lemma splice_length:
  assumes "a \<le> e" "e \<le> n" "e \<le> length b"
  shows "length (take a (replicate n x) @ take (e - a) (drop a b) @ drop e (replicate n x)) = n"
  using assms by simp

lemma slot_copy:
  assumes "s \<le> i" "i < e" "e * tsz \<le> length b"
  shows "slot tsz (replicate (s * tsz) x @ take ((e - s) * tsz) (drop (s * tsz) b) @ c) i = slot tsz b i"
proof -
  have 1: "s * tsz \<le> i * tsz" using assms(1) by (rule mult_le_mono1)
  have "(i + 1) * tsz \<le> e * tsz" using assms(2) by (intro mult_le_mono1) simp
  then have 2: "i * tsz + tsz \<le> e * tsz" by simp
  have 3: "(e - s) * tsz = e * tsz - s * tsz" by (rule diff_mult_distrib)
  show ?thesis unfolding slot_def 3 using 1 2 assms(3) by (rule splice_read)
qed

section \<open>Evaluation on concrete inputs\<close>

lemma unat_minus_one_32: "unat (- 1 :: 32 word) = 4294967295"
  by (simp add: unsigned_minus_1_eq_mask mask_eq_exp_minus_1)

lemma replicate_numeral_unfold: "replicate (numeral k) x = x # replicate (pred_numeral k) x"
  by (simp add: numeral_eq_Suc)

lemmas model_defs =
  push_then_pop_def push_back_def resize_def resize_wrapped_def resize_empty_offset_def
  resize_finish_def realloc_def malloc_def memcpy_def free_block_def block_at_def
  store_elem_def load_elem_def pop_front_def pop_def pop_back_def roundup_def
  construct_def size_q_def Let_def replicate_numeral_unfold unat_minus_one_32

text \<open>
  Three states that the public operations reach from a new queue of requested size 3.
  The first, with elements of two bytes, is empty with \<open>start = stop = 2\<close>: two
  pushes and two pops.
\<close>

lemma reach_empty_at_2:
  "(case construct 2 \<lparr>blocks = [], avail = 64\<rparr> 3 of
      (Inl e, h0) \<Rightarrow> None
    | (Inr q0, h0) \<Rightarrow>
        (case push_all 2 h0 q0 [[Some 5, Some 21], [Some 6, Some 22]] of
           (r1, h1, q1) \<Rightarrow>
             (case pop_n 2 h1 q1 (Suc (Suc 0)) of (r2, q2) \<Rightarrow> Some (h1, q2))))
   = Some (\<lparr>blocks = [Some [Some 5, Some 21, Some 6, Some 22, None, None, None, None]],
             avail = 56\<rparr>,
           \<lparr>mask_q = 3, start = 2, stop = 2, data = 0\<rparr>)"
  by (simp add: model_defs)

text \<open>
  The second, with elements of one byte, holds three elements in the slots 1, 2
  and 3, with \<open>stop = 0\<close>: three pushes, a pop and a push.
\<close>

lemma reach_stop_0:
  "(case construct 1 \<lparr>blocks = [], avail = 64\<rparr> 3 of
      (Inl e, h0) \<Rightarrow> None
    | (Inr q0, h0) \<Rightarrow>
        (case push_all 1 h0 q0 [[Some 1], [Some 2], [Some 3]] of
           (r1, h1, q1) \<Rightarrow>
             (case pop_front 1 h1 q1 of
                (r2, q2) \<Rightarrow>
                  (case push_back 1 h1 q2 [Some 4] of (r3, h3, q3) \<Rightarrow> Some (h3, q3)))))
   = Some (\<lparr>blocks = [Some [Some 1, Some 2, Some 3, Some 4]], avail = 60\<rparr>,
           \<lparr>mask_q = 3, start = 1, stop = 0, data = 0\<rparr>)"
  by (simp add: model_defs)

text \<open>The third is empty with \<open>start = stop = 1\<close>: a push and a pop.\<close>

lemma reach_empty_at_1:
  "(case construct 1 \<lparr>blocks = [], avail = 64\<rparr> 3 of
      (Inl e, h0) \<Rightarrow> None
    | (Inr q0, h0) \<Rightarrow>
        (case push_back 1 h0 q0 [Some 1] of
           (r1, h1, q1) \<Rightarrow> (case pop_front 1 h1 q1 of (r2, q2) \<Rightarrow> Some (h1, q2))))
   = Some (\<lparr>blocks = [Some [Some 1, None, None, None]], avail = 60\<rparr>,
           \<lparr>mask_q = 3, start = 1, stop = 1, data = 0\<rparr>)"
  by (simp add: model_defs)

text \<open>
  The fourth holds two elements in the slots 1 and 2, with \<open>start = 1\<close> and
  \<open>stop = 3\<close>: three pushes and a pop.
\<close>

lemma reach_start_1_stop_3:
  "(case construct 1 \<lparr>blocks = [], avail = 64\<rparr> 3 of
      (Inl e, h0) \<Rightarrow> None
    | (Inr q0, h0) \<Rightarrow>
        (case push_all 1 h0 q0 [[Some 9], [Some 1], [Some 2]] of
           (r1, h1, q1) \<Rightarrow> (case pop_front 1 h1 q1 of (r2, q2) \<Rightarrow> Some (h1, q2))))
   = Some (\<lparr>blocks = [Some [Some 9, Some 1, Some 2, None]], avail = 60\<rparr>,
           \<lparr>mask_q = 3, start = 1, stop = 3, data = 0\<rparr>)"
  by (simp add: model_defs)

text \<open>
  With elements of one byte, four pushes from the empty queue with
  \<open>start = stop = 2\<close> wrap and resize, and the four pops return the pushed values:
  there \<^verbatim>\<open>memcpy(data_, tmp, sz)\<close> copies \<open>sz\<close> elements.
\<close>

lemma fifo_one_byte_elements:
  "push_then_pop 1
     \<lparr>blocks = [Some [Some 5, Some 6, None, None]], avail = 60\<rparr>
     \<lparr>mask_q = 3, start = 2, stop = 2, data = 0\<rparr>
     [[Some 1], [Some 2], [Some 3], [Some 4]]
   = Inr [[Some 1], [Some 2], [Some 3], [Some 4]]"
  by (simp add: model_defs)

section \<open>The claims\<close>

text \<open>
  C1. Pushes followed by as many \<^verbatim>\<open>pop_front\<close> calls return the pushed values in
  the order pushed, also when a push resizes a queue whose occupied range wraps.
  This fails for elements of more than one byte. From the empty queue with
  \<open>start = stop = 2\<close> and \<open>mask = 3\<close>, four pushes of two-byte elements wrap and then
  resize; \<^verbatim>\<open>memcpy(data_, tmp, sz)\<close> copies \<open>sz = 3\<close> bytes back, not three elements,
  and the four pops return the first value, a mixture of the second value and a
  stale byte, the first value again, and the fourth value.
\<close>

theorem fifo_broken_by_wrapped_resize:
  "push_then_pop 2
     \<lparr>blocks = [Some [Some 5, Some 21, Some 6, Some 22, None, None, None, None]], avail = 56\<rparr>
     \<lparr>mask_q = 3, start = 2, stop = 2, data = 0\<rparr>
     [[Some 1, Some 17], [Some 2, Some 18], [Some 3, Some 19], [Some 4, Some 20]]
   = Inr [[Some 1, Some 17], [Some 2, Some 22], [Some 1, Some 17], [Some 4, Some 20]]"
  by (simp add: model_defs)

text \<open>
  C2. Every public operation keeps \<open>start\<close> and \<open>stop\<close> in \<open>[0, mask]\<close>, and \<^verbatim>\<open>pop_back\<close>
  sets \<open>stop\<close> to \<open>(stop - 1) & mask\<close>. This fails: \<^verbatim>\<open>pop_back\<close> decrements \<open>stop\<close> and
  masks \<open>start\<close>. With \<open>stop = 0\<close> the decrement wraps to \<open>4294967295\<close>, the slot read
  lies outside the block, and \<open>stop\<close> is left above \<open>mask\<close>.
\<close>

theorem pop_back_leaves_stop_unmasked:
  "start \<lparr>mask_q = 3, start = 1, stop = 0, data = 0\<rparr> \<le> (3 :: size_type)
   \<and> stop \<lparr>mask_q = 3, start = 1, stop = 0, data = 0\<rparr> \<le> (3 :: size_type)
   \<and> pop_back 1 \<lparr>blocks = [Some [Some 1, Some 2, Some 3, Some 4]], avail = 60\<rparr>
         \<lparr>mask_q = 3, start = 1, stop = 0, data = 0\<rparr>
       = (Inl OutOfBounds, \<lparr>mask_q = 3, start = 1, stop = 4294967295, data = 0\<rparr>)
   \<and> \<not> (4294967295 :: size_type) \<le> 3
   \<and> ((0 :: size_type) - 1) AND 3 = 3"
  by (simp add: model_defs)

text \<open>
  C3. \<^verbatim>\<open>resize\<close> on an empty queue with \<open>start = stop \<noteq> 0\<close> returns with the queue
  still empty and both indices reset. This fails: the branch sets \<open>stop\<close> to
  \<open>mask + 1\<close> and never resets it, and its second \<^verbatim>\<open>memcpy\<close> writes \<open>stop\<close> elements at
  offset \<open>stop - start\<close> of a scratch block of \<open>stop\<close> elements. On the empty queue
  with \<open>start = stop = 1\<close> and \<open>mask = 3\<close> the operation stops at that write with
  \<open>stop = 4\<close>, where \<open>size()\<close> is 3.
\<close>

theorem resize_empty_offset_overruns:
  "resize 1 \<lparr>blocks = [Some [Some 1, None, None, None]], avail = 60\<rparr>
     \<lparr>mask_q = 3, start = 1, stop = 1, data = 0\<rparr> 8
   = (Inl OutOfBounds,
      \<lparr>blocks = [Some [Some 1, None, None, None, None, None, None, None],
                 Some [None, None, None, None]],
        avail = 52\<rparr>,
      \<lparr>mask_q = 3, start = 1, stop = 4, data = 0\<rparr>)
   \<and> size_q \<lparr>mask_q = 3, start = 1, stop = 4, data = 0\<rparr> = 3"
  by (simp add: model_defs)

text \<open>
  C4. On a non-empty queue \<^verbatim>\<open>front()\<close> refers to the slot \<open>start\<close> and \<^verbatim>\<open>back()\<close> to the
  slot \<open>(stop - 1) & mask\<close>, which is the slot \<open>mask\<close> when \<open>stop = 0\<close>. The second part
  fails: \<^verbatim>\<open>back()\<close> is \<^verbatim>\<open>data_[stop_ - 1]\<close>, not masked. With \<open>stop = 0\<close> it refers to
  the slot \<open>4294967295\<close>, outside the block, and not to the slot 3, which holds the
  newest element.
\<close>

theorem back_not_masked:
  "front \<lparr>mask_q = 3, start = 1, stop = 0, data = 0\<rparr> = (0, 1)
   \<and> back_q \<lparr>mask_q = 3, start = 1, stop = 0, data = 0\<rparr> = (0, 4294967295)
   \<and> unat (((0 :: size_type) - 1) AND 3) = 3
   \<and> deref 1 \<lparr>blocks = [Some [Some 1, Some 2, Some 3, Some 4]], avail = 60\<rparr>
        (back_q \<lparr>mask_q = 3, start = 1, stop = 0, data = 0\<rparr>) = None
   \<and> deref 1 \<lparr>blocks = [Some [Some 1, Some 2, Some 3, Some 4]], avail = 60\<rparr> (0, 3)
       = Some [Some 4]"
  by (simp add: model_defs front_def back_q_def deref_def)

text \<open>
  C5, as stated: the copy constructor allocates a new block and reconstructs only
  the live elements into it, starting at index 0. The last part fails: the
  constructor copies \<open>start\<close> and \<open>stop\<close> and writes each live element to the slot it
  has in the original. The copy of a queue that holds two elements in the slots 1
  and 2 has \<open>start = 1\<close>; the slot 0 of its block is unwritten.
\<close>

theorem copy_construct_keeps_offset:
  "copy_construct 1 \<lparr>blocks = [Some [Some 9, Some 1, Some 2, None]], avail = 60\<rparr>
     \<lparr>mask_q = 3, start = 1, stop = 3, data = 0\<rparr>
   = Some (Inr \<lparr>mask_q = 3, start = 1, stop = 3, data = 1\<rparr>,
           \<lparr>blocks = [Some [Some 9, Some 1, Some 2, None], Some [None, Some 1, Some 2, None]],
             avail = 56\<rparr>)
   \<and> load_elem 1 \<lparr>blocks = [Some [Some 9, Some 1, Some 2, None], Some [None, Some 1, Some 2, None]],
             avail = 56\<rparr> 1 0 = Some [None]"
  by (simp add: copy_construct_def copy_loop.simps malloc_def load_elem_def store_elem_def
      block_at_def replicate_numeral_unfold)

text \<open>
  C5, amended. For a queue whose occupied range does not wrap (\<open>start \<le> stop\<close>),
  whose mask passes the constructor's assertion and is below \<open>2 ^ 32 - 1\<close>, and whose
  block has \<open>mask + 1\<close> slots, when the allocator has room for as many again:
  the copy constructor returns a queue with the same \<open>mask\<close>, \<open>start\<close> and \<open>stop\<close> and a
  block at an address that was not in use; the bytes of that block are unwritten
  except those of the slots \<open>start, \<dots>, stop - 1\<close>, which hold what the same slots of
  the original hold; the original's block is as before; \<^verbatim>\<open>to_vector\<close> of the copy is
  \<^verbatim>\<open>to_vector\<close> of the original, before and after. The fields of the original are not
  part of what the constructor or a later \<^verbatim>\<open>pop\<close> of the copy returns, so its
  \<^verbatim>\<open>size()\<close> cannot change.
\<close>

theorem copy_construct_unwrapped:
  assumes pow2: "mask_q other AND (mask_q other + 1) = 0"
    and le: "start other \<le> stop other" "stop other \<le> mask_q other"
    and nmax: "mask_q other \<noteq> - 1"
    and blk: "block_at h (data other) = Some b" "(unat (mask_q other) + 1) * tsz \<le> length b"
    and mem: "tsz * (unat (mask_q other) + 1) \<le> avail h"
  shows "\<exists>h'. copy_construct tsz h other = Some (Inr (other\<lparr>data := length (blocks h)\<rparr>), h')
    \<and> block_at h (length (blocks h)) = None
    \<and> block_at h' (data other) = Some b
    \<and> block_at h' (length (blocks h))
        = Some (replicate (unat (start other) * tsz) None
            @ take ((unat (stop other) - unat (start other)) * tsz) (drop (unat (start other) * tsz) b)
            @ replicate ((unat (mask_q other) + 1) * tsz - unat (stop other) * tsz) None)
    \<and> to_vector tsz h' (other\<lparr>data := length (blocks h)\<rparr>) = to_vector tsz h other
    \<and> to_vector tsz h' other = to_vector tsz h other"
proof -
  let ?S = "unat (start other)" and ?E = "unat (stop other)" and ?M = "unat (mask_q other)"
  let ?tmp = "length (blocks h)"
  let ?n = "tsz * unat (mask_q other + 1)"
  let ?d = "replicate ?n (None :: cell)"
  let ?h1 = "h\<lparr>blocks := blocks h @ [Some ?d], avail := avail h - ?n\<rparr>"
  let ?q' = "other\<lparr>data := ?tmp\<rparr>"
  from nmax have "1 + mask_q other \<noteq> 0" by (simp add: add_eq_0_iff)
  then have "unat (1 + mask_q other) = Suc ?M" by (rule unatSuc)
  then have m1: "unat (mask_q other + 1) = ?M + 1" by (simp add: add.commute)
  then have n: "?n = (?M + 1) * tsz" by (simp add: mult.commute)
  have SE: "?S \<le> ?E" and EM: "?E \<le> ?M" using le by (simp_all add: word_le_nat_alt)
  have "?E * tsz \<le> (?M + 1) * tsz" using EM by (intro mult_le_mono1) simp
  then have eb: "?E * tsz \<le> length b" and en: "?E * tsz \<le> ?n" using blk(2) n by simp_all
  have se: "?S * tsz \<le> ?E * tsz" using SE by (rule mult_le_mono1)
  then have sn: "?S * tsz \<le> ?n" using en by (rule order_trans)
  have ml: "malloc ?n h = (Some ?tmp, ?h1)" using mem m1 by (simp add: malloc_def)
  have dl: "data other < ?tmp" using blk(1) block_at_SomeD by blast
  then have neq: "?tmp \<noteq> data other" by simp
  have b1: "block_at ?h1 (data other) = Some b"
    using dl blk(1) by (simp add: block_at_def nth_append)
  have d1: "block_at ?h1 ?tmp = Some ?d" by (simp add: block_at_def)
  have ld: "?E * tsz \<le> length ?d" using en by simp
  let ?d' = "take (?S * tsz) ?d @ take ((?E - ?S) * tsz) (drop (?S * tsz) b) @ drop (?E * tsz) ?d"
  let ?h2 = "?h1\<lparr>blocks := (blocks ?h1)[?tmp := Some ?d']\<rparr>"
  have cl: "copy_loop tsz ?h1 ?tmp other (start other) = Some (Inr (), ?h2)"
    using neq b1 eb d1 ld le(1) refl by (rule copy_loop_run)
  have cc: "copy_construct tsz h other = Some (Inr ?q', ?h2)"
    unfolding copy_construct_def by (simp only: ml cl prod.case option.case sum.case) simp
  have fresh: "block_at h ?tmp = None" by (simp add: block_at_def)
  have b2: "block_at ?h2 (data other) = Some b"
    by (simp only: block_at_update_other [OF neq] b1)
  have "?tmp < length (blocks ?h1)" by simp
  then have d2: "block_at ?h2 ?tmp = Some ?d'" by (rule block_at_update_same)
  have d'eq: "?d' = replicate (?S * tsz) None
            @ take ((?E - ?S) * tsz) (drop (?S * tsz) b)
            @ replicate ((?M + 1) * tsz - ?E * tsz) None"
    using sn en by (simp add: n min_absorb2)
  have tv: "to_vector tsz h other = Some (Inr (map (slot tsz b) (live_indices other)))"
    using pow2 _ le(2) blk by (rule to_vector_visits) (use le in simp)
  have tv2: "to_vector tsz ?h2 other = Some (Inr (map (slot tsz b) (live_indices other)))"
    using pow2 _ le(2) b2 blk(2) by (rule to_vector_visits) (use le in simp)
  have li: "live_indices ?q' = live_indices other" by (simp add: live_indices_def size_q_def)
  have lu: "live_indices other = [?S..<?E]" using pow2 le by (rule live_indices_unwrapped)
  have es: "(?E - ?S) * tsz = ?E * tsz - ?S * tsz" by (rule diff_mult_distrib)
  have "length ?d' = ?n" unfolding es using se en eb by (rule splice_length)
  then have len': "(unat (mask_q ?q') + 1) * tsz \<le> length ?d'" by (simp add: n)
  have "to_vector tsz ?h2 ?q' = Some (Inr (map (slot tsz ?d') (live_indices ?q')))"
    by (rule to_vector_visits [where b = ?d']) (use pow2 le d2 len' in simp_all)
  also have "map (slot tsz ?d') (live_indices ?q') = map (slot tsz b) (live_indices other)"
    unfolding li lu d'eq by (rule map_cong) (simp_all add: slot_copy eb)
  finally have tv3: "to_vector tsz ?h2 ?q' = to_vector tsz h other" using tv by simp
  from cc fresh b2 d2 d'eq tv3 tv tv2 show ?thesis by (intro exI [of _ ?h2]) simp
qed

theorem copy_construct_unwrapped_witness:
  "mask_q \<lparr>mask_q = 3, start = 1, stop = 3, data = 0\<rparr> AND (mask_q \<lparr>mask_q = 3, start = 1, stop = 3, data = 0\<rparr> + 1) = 0
   \<and> start \<lparr>mask_q = 3, start = 1, stop = 3, data = 0\<rparr> \<le> stop \<lparr>mask_q = 3, start = 1, stop = 3, data = 0\<rparr>
   \<and> stop \<lparr>mask_q = 3, start = 1, stop = 3, data = 0\<rparr> \<le> 3
   \<and> (\<exists>h'. copy_construct 1 \<lparr>blocks = [Some [Some 9, Some 1, Some 2, None]], avail = 60\<rparr>
              \<lparr>mask_q = 3, start = 1, stop = 3, data = 0\<rparr>
            = Some (Inr \<lparr>mask_q = 3, start = 1, stop = 3, data = 1\<rparr>, h')
        \<and> block_at h' 0 = Some [Some 9, Some 1, Some 2, None]
        \<and> block_at h' 1 = Some [None, Some 1, Some 2, None]
        \<and> to_vector 1 h' \<lparr>mask_q = 3, start = 1, stop = 3, data = 1\<rparr>
            = to_vector 1 \<lparr>blocks = [Some [Some 9, Some 1, Some 2, None]], avail = 60\<rparr>
                \<lparr>mask_q = 3, start = 1, stop = 3, data = 0\<rparr>)"
proof -
  have b: "block_at \<lparr>blocks = [Some [Some 9, Some 1, Some 2, None]], avail = 60\<rparr> 0
           = Some [Some 9, Some 1, Some 2, None]"
    by (simp add: block_at_def)
  show ?thesis
    using copy_construct_unwrapped [of "\<lparr>mask_q = 3, start = 1, stop = 3, data = 0\<rparr>"
        "\<lparr>blocks = [Some [Some 9, Some 1, Some 2, None]], avail = 60\<rparr>"
        "[Some 9, Some 1, Some 2, None]" 1]
    by (auto simp add: b replicate_numeral_unfold)
qed

text \<open>
  C6. Whenever \<^verbatim>\<open>resize\<close> returns normally, the new mask is
  \<open>((old mask + 1) << 1) - 1\<close>, whatever the requested size.
\<close>

theorem resize_doubles_mask:
  "resize tsz h q n = (Inr u, h', q') \<Longrightarrow> mask_q q' = push_bit 1 (mask_q q + 1) - 1"
  by (auto simp: resize_def resize_wrapped_def resize_empty_offset_def resize_finish_def Let_def
      split: if_splits prod.splits sum.splits option.splits)

theorem resize_doubles_mask_witness:
  "resize 1 \<lparr>blocks = [Some [Some 1, None, None, None]], avail = 200\<rparr>
     \<lparr>mask_q = 3, start = 0, stop = 1, data = 0\<rparr> 100
   = (Inr (),
      \<lparr>blocks = [Some ([Some 1, None, None, None] @ replicate 124 None)], avail = 76\<rparr>,
      \<lparr>mask_q = 7, start = 0, stop = 1, data = 0\<rparr>)
   \<and> (7 :: size_type) = push_bit 1 (3 + 1) - 1"
proof -
  have r: "resize 1 \<lparr>blocks = [Some [Some 1, None, None, None]], avail = 200\<rparr>
             \<lparr>mask_q = 3, start = 0, stop = 1, data = 0\<rparr> 100
           = (Inr (),
              \<lparr>blocks = [Some ([Some 1, None, None, None] @ replicate 124 None)], avail = 76\<rparr>,
              \<lparr>mask_q = 7, start = 0, stop = 1, data = 0\<rparr>)"
    by (simp add: resize_def resize_finish_def realloc_def block_at_def roundup_def Let_def)
  show ?thesis using r resize_doubles_mask [OF r] by simp
qed

text \<open>
  C7. \<^verbatim>\<open>resize(target)\<close> fails with \<open>InvalidResize\<close> exactly when the target is below
  the current mask, and then the heap and the queue are as before the call.
\<close>

theorem resize_invalid_iff:
  "(fst (resize tsz h q n) = Inl InvalidResize) = (n < mask_q q)
   \<and> (n < mask_q q \<longrightarrow> resize tsz h q n = (Inl InvalidResize, h, q))"
  by (auto simp: resize_def resize_wrapped_def resize_empty_offset_def resize_finish_def realloc_def Let_def
      split: if_splits prod.splits sum.splits option.splits)

theorem resize_invalid_iff_witness:
  "(2 :: size_type) < mask_q \<lparr>mask_q = 3, start = 0, stop = 1, data = 0\<rparr>
   \<and> resize 1 \<lparr>blocks = [Some [Some 1, None, None, None]], avail = 60\<rparr>
        \<lparr>mask_q = 3, start = 0, stop = 1, data = 0\<rparr> 2
     = (Inl InvalidResize,
        \<lparr>blocks = [Some [Some 1, None, None, None]], avail = 60\<rparr>,
        \<lparr>mask_q = 3, start = 0, stop = 1, data = 0\<rparr>)"
  using resize_invalid_iff [of 1 "\<lparr>blocks = [Some [Some 1, None, None, None]], avail = 60\<rparr>"
      "\<lparr>mask_q = 3, start = 0, stop = 1, data = 0\<rparr>" 2]
  by simp

text \<open>
  C8. \<^verbatim>\<open>pop\<close>, \<^verbatim>\<open>pop_front\<close> and \<^verbatim>\<open>pop_back\<close> on an empty queue (\<open>start = stop\<close>) fail
  with \<open>EmptyQueue\<close> and leave the fields as they were; \<open>size()\<close> is 0. None of the
  three writes to the heap.
\<close>

theorem pop_empty_fails:
  "start q = stop q \<Longrightarrow>
     pop tsz h q = (Inl EmptyQueue, q) \<and> pop_front tsz h q = (Inl EmptyQueue, q)
     \<and> pop_back tsz h q = (Inl EmptyQueue, q) \<and> size_q q = 0"
  by (simp add: pop_def pop_front_def pop_back_def size_q_def)

theorem pop_empty_fails_witness:
  "start \<lparr>mask_q = 3, start = 1, stop = 1, data = 0\<rparr> = stop \<lparr>mask_q = 3, start = 1, stop = 1, data = 0\<rparr>
   \<and> pop 1 \<lparr>blocks = [Some [Some 1, None, None, None]], avail = 60\<rparr>
        \<lparr>mask_q = 3, start = 1, stop = 1, data = 0\<rparr>
     = (Inl EmptyQueue, \<lparr>mask_q = 3, start = 1, stop = 1, data = 0\<rparr>)
   \<and> pop_back 1 \<lparr>blocks = [Some [Some 1, None, None, None]], avail = 60\<rparr>
        \<lparr>mask_q = 3, start = 1, stop = 1, data = 0\<rparr>
     = (Inl EmptyQueue, \<lparr>mask_q = 3, start = 1, stop = 1, data = 0\<rparr>)
   \<and> size_q \<lparr>mask_q = 3, start = 1, stop = 1, data = 0\<rparr> = 0"
  using pop_empty_fails [of "\<lparr>mask_q = 3, start = 1, stop = 1, data = 0\<rparr>" 1
      "\<lparr>blocks = [Some [Some 1, None, None, None]], avail = 60\<rparr>"]
  by simp

text \<open>
  C9. On a non-empty queue whose mask passes the constructor's assertion and whose
  \<open>start\<close> and \<open>stop\<close> lie in \<open>[0, mask]\<close>, \<^verbatim>\<open>pop_back\<close> leaves \<open>mask\<close>, \<open>start\<close> and the
  data pointer as they were: masking \<open>start\<close> changes nothing. Only \<open>stop\<close> changes,
  to \<open>stop - 1\<close>. \<^verbatim>\<open>pop_back\<close> does not write to the heap.
\<close>

theorem pop_back_frame:
  assumes "mask_q q AND (mask_q q + 1) = 0"
    and "start q \<le> mask_q q" and "stop q \<le> mask_q q" and "stop q \<noteq> start q"
  shows "mask_q (snd (pop_back tsz h q)) = mask_q q
    \<and> start (snd (pop_back tsz h q)) = start q
    \<and> data (snd (pop_back tsz h q)) = data q
    \<and> stop (snd (pop_back tsz h q)) = stop q - 1"
proof -
  have "start q AND mask_q q = start q" using assms(1,2) by (rule and_succ_less_eq)
  with assms(4) show ?thesis by (simp add: pop_back_def Let_def split: option.split)
qed

theorem pop_back_frame_witness:
  "mask_q \<lparr>mask_q = 3, start = 2, stop = 1, data = 0\<rparr> AND (mask_q \<lparr>mask_q = 3, start = 2, stop = 1, data = 0\<rparr> + 1) = 0
   \<and> start \<lparr>mask_q = 3, start = 2, stop = 1, data = 0\<rparr> \<le> 3
   \<and> stop \<lparr>mask_q = 3, start = 2, stop = 1, data = 0\<rparr> \<le> 3
   \<and> pop_back 1 \<lparr>blocks = [Some [Some 3, Some 9, Some 1, Some 2]], avail = 0\<rparr>
        \<lparr>mask_q = 3, start = 2, stop = 1, data = 0\<rparr>
       = (Inr [Some 3], \<lparr>mask_q = 3, start = 2, stop = 0, data = 0\<rparr>)"
  using pop_back_frame [of "\<lparr>mask_q = 3, start = 2, stop = 1, data = 0\<rparr>" 1
      "\<lparr>blocks = [Some [Some 3, Some 9, Some 1, Some 2]], avail = 0\<rparr>"]
  by (simp add: pop_back_def load_elem_def block_at_def Let_def)


text \<open>
  C10. When the mask passes the constructor's assertion, \<open>start\<close> and \<open>stop\<close> lie in
  \<open>[0, mask]\<close> and the block has \<open>mask + 1\<close> slots, the loops of \<^verbatim>\<open>to_vector\<close> and
  \<^verbatim>\<open>for_each\<close> end, and they visit the slots \<open>(start + j) & mask\<close> for
  \<open>j = 0, \<dots>, size() - 1\<close> in this order: \<^verbatim>\<open>size()\<close> elements, from the front to the
  back, around the end of the block.
\<close>

theorem traversal_terminates:
  assumes "mask_q q AND (mask_q q + 1) = 0"
    and "start q \<le> mask_q q" and "stop q \<le> mask_q q"
    and "block_at h (data q) = Some b" and "(unat (mask_q q) + 1) * tsz \<le> length b"
  shows "to_vector tsz h q = Some (Inr (map (slot tsz b) (live_indices q)))
    \<and> for_each tsz func h q s = Some (Inr (foldl func s (map (slot tsz b) (live_indices q))))
    \<and> length (live_indices q) = unat (size_q q)"
proof -
  from assms(1) obtain k where k: "mask_q q = mask k" using word_and_succ_eq_0 by blast
  have st: "start q \<le> mask k" "stop q \<le> mask k" using assms(2,3) k by simp_all
  have n: "unat ((stop q - start q) AND mask k) = unat (size_q q)" by (simp add: size_q_def k)
  have l: "map (\<lambda>j. slot tsz b (unat ((start q + of_nat j) AND mask k))) [0..<unat (size_q q)]
    = map (slot tsz b) (live_indices q)"
    by (simp add: live_indices_def k o_def)
  have "to_vector tsz h q = Some (Inr (map (slot tsz b) (live_indices q)))"
    unfolding to_vector_def
    using to_vector_loop_run [OF k st(2) assms(4,5) st(1) n, of "[]"] by (simp only: l append_Nil)
  moreover have "for_each tsz func h q s = Some (Inr (foldl func s (map (slot tsz b) (live_indices q))))"
    unfolding for_each_def
    using for_each_loop_run [OF k st(2) assms(4,5) st(1) n, of func s] by (simp only: l)
  moreover have "length (live_indices q) = unat (size_q q)" by (simp add: live_indices_def)
  ultimately show ?thesis by blast
qed

theorem traversal_terminates_witness:
  "mask_q \<lparr>mask_q = 3, start = 2, stop = 1, data = 0\<rparr> AND (mask_q \<lparr>mask_q = 3, start = 2, stop = 1, data = 0\<rparr> + 1) = 0
   \<and> start \<lparr>mask_q = 3, start = 2, stop = 1, data = 0\<rparr> \<le> 3
   \<and> stop \<lparr>mask_q = 3, start = 2, stop = 1, data = 0\<rparr> \<le> 3
   \<and> size_q \<lparr>mask_q = 3, start = 2, stop = 1, data = 0\<rparr> = 3
   \<and> to_vector 1 \<lparr>blocks = [Some [Some 3, Some 9, Some 1, Some 2]], avail = 0\<rparr>
        \<lparr>mask_q = 3, start = 2, stop = 1, data = 0\<rparr>
     = Some (Inr [[Some 1], [Some 2], [Some 3]])
   \<and> for_each 1 (\<lambda>s v. s @ v) \<lparr>blocks = [Some [Some 3, Some 9, Some 1, Some 2]], avail = 0\<rparr>
        \<lparr>mask_q = 3, start = 2, stop = 1, data = 0\<rparr> []
     = Some (Inr [Some 1, Some 2, Some 3])"
  using traversal_terminates [of "\<lparr>mask_q = 3, start = 2, stop = 1, data = 0\<rparr>"
      "\<lparr>blocks = [Some [Some 3, Some 9, Some 1, Some 2]], avail = 0\<rparr>"
      "[Some 3, Some 9, Some 1, Some 2]" 1 "\<lambda>s v. s @ v" "[]"]
  by (simp add: live_indices_def slot_def size_q_def block_at_def upt_0_3)


end
